theory Spec2Isabelle
  imports Main
begin

section \<open>CHWordleBot: constants, failures and unordered sets\<close>

text \<open>
  The development embeds \<^verbatim>\<open>chwordlebot.cpp\<close>. A \<^verbatim>\<open>std::string\<close> is a \<^typ>\<open>string\<close>.
  An \<^verbatim>\<open>unsigned short\<close> index or count is a \<^typ>\<open>nat\<close>: the indices and the counts of the
  derivation are at most \<^verbatim>\<open>WORD_LENGTH\<close>; the one counter that runs over a string of any
  length, \<^verbatim>\<open>amt\<close> in \<^verbatim>\<open>LetterCountConstraint::satisfies\<close>, wraps at 16 bits. A \<^verbatim>\<open>std::size_t\<close>
  frequency or score is a \<^typ>\<open>nat\<close>: a frequency is at most the number of characters
  of the pool, and a score adds the frequencies of the letters of one word.
\<close>

definition WORD_LENGTH :: nat where
  "WORD_LENGTH = 5"

definition NOT_THERE :: char where
  "NOT_THERE = CHR ''W''"

definition WRONG_SPOT :: char where
  "WRONG_SPOT = CHR ''Y''"

definition RIGHT_SPOT :: char where
  "RIGHT_SPOT = CHR ''G''"

text \<open>
  The ways in which a call can end without a result: a failed \<^verbatim>\<open>assert\<close> (the process
  aborts), \<^verbatim>\<open>std::string::at\<close> out of range (an exception nobody catches), and
  undefined behaviour (the remainder of a division by zero: no error is signalled, and
  the standard says nothing about what happens).
\<close>

datatype failure = AssertionFailed | OutOfRange | UndefinedBehaviour

text \<open>
  A \<^verbatim>\<open>std::unordered_set\<close> is the list of its elements, without repetition, in the order
  in which iteration visits them. The standard does not say which order that is, so
  the statements below speak about the \<^const>\<open>set\<close> of such a list, and the order of the
  candidate pool is arbitrary in each of them.
\<close>

definition uset_insert :: "'a \<Rightarrow> 'a list \<Rightarrow> 'a list" where
  "uset_insert x xs = (if x \<in> set xs then xs else xs @ [x])"

text \<open>
  \<^verbatim>\<open>a.merge (b)\<close> moves into \<^verbatim>\<open>a\<close> every element of \<^verbatim>\<open>b\<close> that \<^verbatim>\<open>a\<close> does not hold; the
  other elements stay in \<^verbatim>\<open>b\<close>. The result is the pair of both sets afterwards.
\<close>

definition uset_merge :: "'a list \<Rightarrow> 'a list \<Rightarrow> 'a list \<times> 'a list" where
  "uset_merge a b = (a @ filter (\<lambda>x. x \<notin> set a) b, filter (\<lambda>x. x \<in> set a) b)"

definition isupper_AZ :: "char \<Rightarrow> bool" where
  "isupper_AZ c \<longleftrightarrow> (65::nat) \<le> of_char c \<and> of_char c \<le> (90::nat)"

section \<open>The two kinds of constraint\<close>

text \<open>
  Class \<^verbatim>\<open>PositionConstraint\<close> with its members \<^verbatim>\<open>m_index\<close>, \<^verbatim>\<open>m_letter\<close> and
  \<^verbatim>\<open>m_shouldMatch\<close>; class \<^verbatim>\<open>LetterCountConstraint\<close> with \<^verbatim>\<open>m_count\<close>, \<^verbatim>\<open>m_letter\<close> and
  \<^verbatim>\<open>m_min\<close>. The members carry the prefix of their class, since both classes have an
  \<^verbatim>\<open>m_letter\<close>. Equality of records is \<^verbatim>\<open>operator==\<close>: all three members.
\<close>

record PositionConstraint =
  pc_index :: nat
  pc_letter :: char
  pc_shouldMatch :: bool

record LetterCountConstraint =
  lc_count :: nat
  lc_letter :: char
  lc_min :: bool

text \<open>The constructors, with their assertions.\<close>

definition mkPositionConstraint :: "nat \<Rightarrow> char \<Rightarrow> bool \<Rightarrow> failure + PositionConstraint" where
  "mkPositionConstraint index letter shouldMatch =
     (if \<not> index < WORD_LENGTH then Inl AssertionFailed
      else if \<not> isupper_AZ letter then Inl AssertionFailed
      else Inr \<lparr>pc_index = index, pc_letter = letter, pc_shouldMatch = shouldMatch\<rparr>)"

definition mkLetterCountConstraint :: "nat \<Rightarrow> char \<Rightarrow> bool \<Rightarrow> failure + LetterCountConstraint" where
  "mkLetterCountConstraint count letter minimum =
     (if \<not> count < WORD_LENGTH then Inl AssertionFailed
      else if \<not> isupper_AZ letter then Inl AssertionFailed
      else Inr \<lparr>lc_count = count, lc_letter = letter, lc_min = minimum\<rparr>)"

text \<open>\<^verbatim>\<open>PositionConstraint::satisfies\<close>: \<^verbatim>\<open>str.at (m_index)\<close> throws when the index is out of range.\<close>

definition satisfiesP :: "PositionConstraint \<Rightarrow> string \<Rightarrow> failure + bool" where
  "satisfiesP c str =
     (if pc_index c < length str
      then Inr ((str ! pc_index c = pc_letter c) = pc_shouldMatch c)
      else Inl OutOfRange)"

text \<open>\<^verbatim>\<open>LetterCountConstraint::satisfies\<close>: the loop that counts into \<^verbatim>\<open>amt\<close>, then the comparison.\<close>

fun count_amt :: "char \<Rightarrow> string \<Rightarrow> nat \<Rightarrow> nat" where
  "count_amt letter [] amt = amt"
| "count_amt letter (c # str) amt =
     count_amt letter str (if c = letter then (amt + 1) mod 65536 else amt)"

definition satisfiesL :: "LetterCountConstraint \<Rightarrow> string \<Rightarrow> bool" where
  "satisfiesL c str =
     (let amt = count_amt (lc_letter c) str 0
      in if lc_min c then amt \<ge> lc_count c else amt \<le> lc_count c)"

section \<open>Deriving constraints from a guess and its feedback\<close>

text \<open>The three assertions that open both \<^verbatim>\<open>generate\<close> functions.\<close>

definition inputs_ok :: "string \<Rightarrow> string \<Rightarrow> bool" where
  "inputs_ok guess feedback \<longleftrightarrow>
     length guess = WORD_LENGTH \<and> length feedback = WORD_LENGTH
     \<and> list_all (\<lambda>c. isupper_AZ c) guess
     \<and> list_all (\<lambda>c. c = NOT_THERE \<or> c = WRONG_SPOT \<or> c = RIGHT_SPOT) feedback"

text \<open>
  One round of the loop over \<^verbatim>\<open>index\<close> in \<^verbatim>\<open>generatePositionConstraints\<close>: two
  independent \<^verbatim>\<open>if\<close>s, each constructing a constraint and inserting it.
\<close>

definition gpc_body :: "string \<Rightarrow> string \<Rightarrow> nat \<Rightarrow> PositionConstraint list \<Rightarrow> failure + PositionConstraint list" where
  "gpc_body guess feedback index constraints =
     (case (if feedback ! index = RIGHT_SPOT
            then (case mkPositionConstraint index (guess ! index) True of
                    Inl e \<Rightarrow> Inl e | Inr c \<Rightarrow> Inr (uset_insert c constraints))
            else Inr constraints) of
        Inl e \<Rightarrow> Inl e
      | Inr constraints1 \<Rightarrow>
          (if feedback ! index = WRONG_SPOT
           then (case mkPositionConstraint index (guess ! index) False of
                   Inl e \<Rightarrow> Inl e | Inr c \<Rightarrow> Inr (uset_insert c constraints1))
           else Inr constraints1))"

fun gpc_loop :: "string \<Rightarrow> string \<Rightarrow> nat list \<Rightarrow> PositionConstraint list \<Rightarrow> failure + PositionConstraint list" where
  "gpc_loop guess feedback [] constraints = Inr constraints"
| "gpc_loop guess feedback (index # rest) constraints =
     (case gpc_body guess feedback index constraints of
        Inl e \<Rightarrow> Inl e
      | Inr constraints1 \<Rightarrow> gpc_loop guess feedback rest constraints1)"

definition generatePositionConstraints :: "string \<Rightarrow> string \<Rightarrow> failure + PositionConstraint list" where
  "generatePositionConstraints guess feedback =
     (if \<not> inputs_ok guess feedback then Inl AssertionFailed
      else gpc_loop guess feedback [0 ..< WORD_LENGTH] [])"

text \<open>
  The inner loop of \<^verbatim>\<open>generateLetterCountConstraints\<close>, the same in both branches: it
  runs over the characters \<^verbatim>\<open>c\<close> of the guess and tests the feedback at \<^verbatim>\<open>index\<close>, the
  position of the outer loop.
\<close>

fun glc_count :: "string \<Rightarrow> string \<Rightarrow> nat \<Rightarrow> string \<Rightarrow> nat \<Rightarrow> nat" where
  "glc_count guess feedback index [] count = count"
| "glc_count guess feedback index (c # cs) count =
     glc_count guess feedback index cs
       (if c = guess ! index \<and> (feedback ! index = WRONG_SPOT \<or> feedback ! index = RIGHT_SPOT)
        then count + 1 else count)"

definition glc_body :: "string \<Rightarrow> string \<Rightarrow> nat \<Rightarrow> LetterCountConstraint list \<Rightarrow> failure + LetterCountConstraint list" where
  "glc_body guess feedback index constraints =
     (if feedback ! index = WRONG_SPOT
      then (let count = glc_count guess feedback index guess 0
            in case mkLetterCountConstraint count (guess ! index) True of
                 Inl e \<Rightarrow> Inl e | Inr c \<Rightarrow> Inr (uset_insert c constraints))
      else if feedback ! index = NOT_THERE
      then (let count = glc_count guess feedback index guess 0
            in case mkLetterCountConstraint count (guess ! index) False of
                 Inl e \<Rightarrow> Inl e | Inr c \<Rightarrow> Inr (uset_insert c constraints))
      else Inr constraints)"

fun glc_loop :: "string \<Rightarrow> string \<Rightarrow> nat list \<Rightarrow> LetterCountConstraint list \<Rightarrow> failure + LetterCountConstraint list" where
  "glc_loop guess feedback [] constraints = Inr constraints"
| "glc_loop guess feedback (index # rest) constraints =
     (case glc_body guess feedback index constraints of
        Inl e \<Rightarrow> Inl e
      | Inr constraints1 \<Rightarrow> glc_loop guess feedback rest constraints1)"

definition generateLetterCountConstraints :: "string \<Rightarrow> string \<Rightarrow> failure + LetterCountConstraint list" where
  "generateLetterCountConstraints guess feedback =
     (if \<not> inputs_ok guess feedback then Inl AssertionFailed
      else glc_loop guess feedback [0 ..< WORD_LENGTH] [])"

section \<open>The candidate pool\<close>

text \<open>
  \<^verbatim>\<open>std::islower\<close>, \<^verbatim>\<open>std::isalpha\<close> and \<^verbatim>\<open>std::toupper\<close> in the "C" locale, the locale of
  a program that never calls \<^verbatim>\<open>setlocale\<close>: the letters are the ASCII letters, and a
  byte above 127 is not alphabetic.
\<close>

definition islower :: "char \<Rightarrow> bool" where
  "islower c \<longleftrightarrow> (97::nat) \<le> of_char c \<and> of_char c \<le> (122::nat)"

definition isalpha :: "char \<Rightarrow> bool" where
  "isalpha c \<longleftrightarrow> islower c \<or> isupper_AZ c"

definition toupper :: "char \<Rightarrow> char" where
  "toupper c = (if islower c then char_of (of_char c - (32::nat)) else c)"

text \<open>
  The loop over \<^verbatim>\<open>index\<close> in the constructor of \<^verbatim>\<open>WordCollection\<close>, on a token of
  \<^const>\<open>WORD_LENGTH\<close> characters: it returns the token as rewritten and the flag \<^verbatim>\<open>good\<close>.
\<close>

fun scan_token :: "string \<Rightarrow> bool \<Rightarrow> string \<times> bool" where
  "scan_token [] good = ([], good)"
| "scan_token (c # cs) good =
     (if islower c
      then (let (cs1, good1) = scan_token cs good in (toupper c # cs1, good1))
      else if \<not> isalpha c
      then (let (cs1, good1) = scan_token cs False in (c # cs1, good1))
      else (let (cs1, good1) = scan_token cs good in (c # cs1, good1)))"

text \<open>
  The constructor reads whitespace-separated tokens until the stream fails; the stream
  is the list of its tokens. A token that passes must not be in the set yet: the
  constructor asserts so before inserting it.
\<close>

fun load_loop :: "string list \<Rightarrow> string list \<Rightarrow> failure + string list" where
  "load_loop [] m_possibleWords = Inr m_possibleWords"
| "load_loop (temp # rest) m_possibleWords =
     (if length temp = WORD_LENGTH
      then (let (temp1, good) = scan_token temp True
            in if good
               then (if temp1 \<in> set m_possibleWords then Inl AssertionFailed
                     else load_loop rest (uset_insert temp1 m_possibleWords))
               else load_loop rest m_possibleWords)
      else load_loop rest m_possibleWords)"

definition WordCollection :: "string list \<Rightarrow> failure + string list" where
  "WordCollection tokens = load_loop tokens []"

text \<open>
  \<^verbatim>\<open>bestWord\<close>. The map \<^verbatim>\<open>letterFrequencies\<close> is a function from characters to counts
  (\<^verbatim>\<open>operator[]\<close> creates a missing entry with 0). First loop: every character of every
  word of the pool increments its entry.
\<close>

fun count_word :: "string \<Rightarrow> (char \<Rightarrow> nat) \<Rightarrow> (char \<Rightarrow> nat)" where
  "count_word [] letterFrequencies = letterFrequencies"
| "count_word (c # cs) letterFrequencies =
     count_word cs (letterFrequencies (c := letterFrequencies c + 1))"

fun count_pool :: "string list \<Rightarrow> (char \<Rightarrow> nat) \<Rightarrow> (char \<Rightarrow> nat)" where
  "count_pool [] letterFrequencies = letterFrequencies"
| "count_pool (word # rest) letterFrequencies =
     count_pool rest (count_word word letterFrequencies)"

text \<open>The score of one word: a character adds its frequency unless \<^verbatim>\<open>alreadySeen\<close> holds it.\<close>

fun score_word :: "(char \<Rightarrow> nat) \<Rightarrow> string \<Rightarrow> nat \<Rightarrow> char list \<Rightarrow> nat" where
  "score_word letterFrequencies [] score alreadySeen = score"
| "score_word letterFrequencies (c # cs) score alreadySeen =
     score_word letterFrequencies cs
       (if c \<notin> set alreadySeen then score + letterFrequencies c else score)
       (uset_insert c alreadySeen)"

text \<open>The second loop, over the pool, carrying \<^verbatim>\<open>bestOptions\<close> and \<^verbatim>\<open>bestScore\<close>.\<close>

fun best_loop :: "(char \<Rightarrow> nat) \<Rightarrow> string list \<Rightarrow> string list \<Rightarrow> nat \<Rightarrow> string list \<times> nat" where
  "best_loop letterFrequencies [] bestOptions bestScore = (bestOptions, bestScore)"
| "best_loop letterFrequencies (word # rest) bestOptions bestScore =
     (let score = score_word letterFrequencies word 0 []
      in if score > bestScore
         then best_loop letterFrequencies rest (uset_insert word []) score
         else if score = bestScore
         then best_loop letterFrequencies rest (uset_insert word bestOptions) bestScore
         else best_loop letterFrequencies rest bestOptions bestScore)"

text \<open>
  The last four lines pick the element that iteration over \<^verbatim>\<open>bestOptions\<close> reaches after
  \<^verbatim>\<open>rand () % bestOptions.size ()\<close> steps. \<^verbatim>\<open>bestOptions\<close> is a second unordered set, and
  the order of its iteration is not the order of its insertions: the parameter \<open>visit\<close>
  is that order, some rearrangement of the elements (\<open>iteration_order\<close>). The parameter
  \<open>r\<close> is the value that \<^verbatim>\<open>rand ()\<close> returns, which is never negative. With no option the
  remainder is a division by zero, which is undefined behaviour.
\<close>

definition iteration_order :: "(string list \<Rightarrow> string list) \<Rightarrow> bool" where
  "iteration_order visit \<longleftrightarrow> (\<forall>xs. set (visit xs) = set xs \<and> length (visit xs) = length xs)"

definition bestWord :: "(string list \<Rightarrow> string list) \<Rightarrow> nat \<Rightarrow> string list \<Rightarrow> failure + string" where
  "bestWord visit r m_possibleWords =
     (let letterFrequencies = count_pool m_possibleWords (\<lambda>c. 0);
          (bestOptions, bestScore) = best_loop letterFrequencies m_possibleWords [] 0;
          options = visit bestOptions
      in if length options = 0 then Inl UndefinedBehaviour
         else Inr (options ! (r mod length options)))"

text \<open>
  What \<^verbatim>\<open>bestWord\<close> computes, in closed form: the frequency of a letter is the number of
  its occurrences in the pool, and the score of a word adds the frequencies of its
  distinct letters.
\<close>

definition occurrences :: "string list \<Rightarrow> char \<Rightarrow> nat" where
  "occurrences pool c = sum_list (map (\<lambda>word. count_list word c) pool)"

definition occurrence_score :: "string list \<Rightarrow> string \<Rightarrow> nat" where
  "occurrence_score pool word = sum (occurrences pool) (set word)"

text \<open>
  The scoring as the specification words it: the frequency of a letter is the number of
  candidate words that contain it at least once, and the score of a word adds the
  frequencies of its distinct letters.
\<close>

definition spec_frequency :: "string list \<Rightarrow> char \<Rightarrow> nat" where
  "spec_frequency pool c = length (filter (\<lambda>word. c \<in> set word) pool)"

definition spec_score :: "string list \<Rightarrow> string \<Rightarrow> nat" where
  "spec_score pool word = sum (spec_frequency pool) (set word)"

section \<open>The collection of constraints\<close>

record ConstraintCollection =
  m_finishedPositionConstraints :: "PositionConstraint list"
  m_finishedLetterCountConstraints :: "LetterCountConstraint list"
  m_newPositionConstraints :: "PositionConstraint list"
  m_newLetterCountConstraints :: "LetterCountConstraint list"

text \<open>A default-constructed collection: four empty sets.\<close>

definition no_constraints :: ConstraintCollection where
  "no_constraints =
     \<lparr>m_finishedPositionConstraints = [], m_finishedLetterCountConstraints = [],
      m_newPositionConstraints = [], m_newLetterCountConstraints = []\<rparr>"

definition addPositionConstraint :: "PositionConstraint \<Rightarrow> ConstraintCollection \<Rightarrow> ConstraintCollection" where
  "addPositionConstraint c cc =
     (if c \<notin> set (m_finishedPositionConstraints cc)
      then cc\<lparr>m_newPositionConstraints := uset_insert c (m_newPositionConstraints cc)\<rparr>
      else cc)"

definition addLetterCountConstraint :: "LetterCountConstraint \<Rightarrow> ConstraintCollection \<Rightarrow> ConstraintCollection" where
  "addLetterCountConstraint c cc =
     (if c \<notin> set (m_finishedLetterCountConstraints cc)
      then cc\<lparr>m_newLetterCountConstraints := uset_insert c (m_newLetterCountConstraints cc)\<rparr>
      else cc)"

text \<open>
  \<^verbatim>\<open>processNewConstraints\<close>. The two inner loops run while \<^verbatim>\<open>good\<close> holds; \<^verbatim>\<open>satisfies\<close> of
  a position constraint may throw.
\<close>

fun position_loop :: "PositionConstraint list \<Rightarrow> string \<Rightarrow> failure + bool" where
  "position_loop [] word = Inr True"
| "position_loop (c # cs) word =
     (case satisfiesP c word of
        Inl e \<Rightarrow> Inl e
      | Inr ok \<Rightarrow> if \<not> ok then Inr False else position_loop cs word)"

fun count_loop :: "LetterCountConstraint list \<Rightarrow> string \<Rightarrow> bool" where
  "count_loop [] word = True"
| "count_loop (c # cs) word = (if \<not> satisfiesL c word then False else count_loop cs word)"

fun candidates_loop :: "ConstraintCollection \<Rightarrow> string list \<Rightarrow> failure + string list" where
  "candidates_loop cc [] = Inr []"
| "candidates_loop cc (word # rest) =
     (case position_loop (m_newPositionConstraints cc) word of
        Inl e \<Rightarrow> Inl e
      | Inr good1 \<Rightarrow>
          (let good = (if good1 then count_loop (m_newLetterCountConstraints cc) word else False)
           in case candidates_loop cc rest of
                Inl e \<Rightarrow> Inl e
              | Inr kept \<Rightarrow> Inr (if \<not> good then kept else word # kept)))"

definition processNewConstraints :: "ConstraintCollection \<Rightarrow> string list \<Rightarrow> failure + ConstraintCollection \<times> string list" where
  "processNewConstraints cc candidates =
     (case candidates_loop cc candidates of
        Inl e \<Rightarrow> Inl e
      | Inr candidates1 \<Rightarrow>
          (let (finishedP, newP) =
                 uset_merge (m_finishedPositionConstraints cc) (m_newPositionConstraints cc)
           in if length newP \<noteq> 0 then Inl AssertionFailed
              else (let (finishedL, newL) =
                          uset_merge (m_finishedLetterCountConstraints cc) (m_newLetterCountConstraints cc)
                    in if length newL \<noteq> 0 then Inl AssertionFailed
                       else Inr (\<lparr>m_finishedPositionConstraints = finishedP,
                                  m_finishedLetterCountConstraints = finishedL,
                                  m_newPositionConstraints = newP,
                                  m_newLetterCountConstraints = newL\<rparr>, candidates1))))"

section \<open>The rounds of the game\<close>

text \<open>
  A batch is what one round admits: the position constraints and the letter-count
  constraints, in the order in which the two loops of \<^verbatim>\<open>main\<close> pass them to
  \<^verbatim>\<open>addPositionConstraint\<close> and \<^verbatim>\<open>addLetterCountConstraint\<close>. The round then calls
  \<^verbatim>\<open>processNewConstraints\<close> on the pool.
\<close>

type_synonym batch = "PositionConstraint list \<times> LetterCountConstraint list"

definition admit_batch :: "batch \<Rightarrow> ConstraintCollection \<Rightarrow> ConstraintCollection" where
  "admit_batch b cc = fold addLetterCountConstraint (snd b) (fold addPositionConstraint (fst b) cc)"

fun run_batches :: "batch list \<Rightarrow> ConstraintCollection \<Rightarrow> string list \<Rightarrow> failure + ConstraintCollection \<times> string list" where
  "run_batches [] cc pool = Inr (cc, pool)"
| "run_batches (b # bs) cc pool =
     (case processNewConstraints (admit_batch b cc) pool of
        Inl e \<Rightarrow> Inl e
      | Inr (cc1, pool1) \<Rightarrow> run_batches bs cc1 pool1)"

text \<open>
  The body of the loop of \<^verbatim>\<open>main\<close>: the state is the pool, the constraints and
  \<^verbatim>\<open>numGuesses\<close>; \<open>r\<close> is what \<^verbatim>\<open>rand ()\<close> returns in \<^verbatim>\<open>bestWord\<close> and \<open>current_feedback\<close> the
  token read from \<^verbatim>\<open>std::cin\<close>. The round ends the game with one of the two messages, or
  goes on with a new state.
\<close>

record game =
  words :: "string list"
  constraints :: ConstraintCollection
  numGuesses :: nat

datatype round_result = NotInDictionary | GotIt nat | NextRound game

definition main_round :: "(string list \<Rightarrow> string list) \<Rightarrow> nat \<Rightarrow> string \<Rightarrow> game \<Rightarrow> failure + round_result" where
  "main_round visit r current_feedback g =
     (let n = numGuesses g + 1
      in if words g = [] then Inr NotInDictionary
         else (case bestWord visit r (words g) of
                 Inl e \<Rightarrow> Inl e
               | Inr current_guess \<Rightarrow>
                   if current_feedback = ''GGGGG'' then Inr (GotIt n)
                   else (case generatePositionConstraints current_guess current_feedback of
                           Inl e \<Rightarrow> Inl e
                         | Inr pcs \<Rightarrow>
                             (case generateLetterCountConstraints current_guess current_feedback of
                                Inl e \<Rightarrow> Inl e
                              | Inr lcs \<Rightarrow>
                                  (case processNewConstraints (admit_batch (pcs, lcs) (constraints g)) (words g) of
                                     Inl e \<Rightarrow> Inl e
                                   | Inr (cc1, words1) \<Rightarrow>
                                       Inr (NextRound \<lparr>words = words1, constraints = cc1, numGuesses = n\<rparr>))))))"

section \<open>The derivation as the specification words it\<close>

text \<open>
  The count of a letter as the specification states it: the number of positions of the
  guess that hold the letter and whose own feedback is Misplaced or Exact.
\<close>

definition spec_confirmed_count :: "string \<Rightarrow> string \<Rightarrow> char \<Rightarrow> nat" where
  "spec_confirmed_count guess feedback letter =
     length (filter (\<lambda>i. guess ! i = letter \<and> (feedback ! i = WRONG_SPOT \<or> feedback ! i = RIGHT_SPOT))
               [0 ..< WORD_LENGTH])"

section \<open>The invariant between two rounds\<close>

text \<open>
  What holds of the collection and the pool before the first round and after every
  call of \<^const>\<open>processNewConstraints\<close>: no constraint is new, every finished position
  constraint has passed the constructor's assertion on its index, every word of the pool
  has \<^const>\<open>WORD_LENGTH\<close> characters, and every word of the pool satisfies every
  finished constraint.
\<close>

definition round_inv :: "ConstraintCollection \<Rightarrow> string list \<Rightarrow> bool" where
  "round_inv cc pool \<longleftrightarrow>
     m_newPositionConstraints cc = [] \<and> m_newLetterCountConstraints cc = []
     \<and> list_all (\<lambda>c. pc_index c < WORD_LENGTH) (m_finishedPositionConstraints cc)
     \<and> list_all (\<lambda>w. length w = WORD_LENGTH) pool
     \<and> list_all (\<lambda>w. list_all (\<lambda>c. satisfiesP c w = Inr True) (m_finishedPositionConstraints cc)
                    \<and> list_all (\<lambda>c. satisfiesL c w) (m_finishedLetterCountConstraints cc)) pool"

section \<open>Properties of the derivation\<close>

lemma set_uset_insert: "set (uset_insert x xs) = insert x (set xs)"
  by (auto simp: uset_insert_def)

lemma distinct_uset_insert: "distinct xs \<Longrightarrow> distinct (uset_insert x xs)"
  by (simp add: uset_insert_def)

lemma gpc_body_ok:
  assumes "index < WORD_LENGTH" "isupper_AZ (guess ! index)"
  shows "\<exists>cs'. gpc_body guess feedback index cs = Inr cs'
           \<and> (distinct cs \<longrightarrow> distinct cs')
           \<and> set cs' = set cs
               \<union> (if feedback ! index = RIGHT_SPOT
                  then {\<lparr>pc_index = index, pc_letter = guess ! index, pc_shouldMatch = True\<rparr>} else {})
               \<union> (if feedback ! index = WRONG_SPOT
                  then {\<lparr>pc_index = index, pc_letter = guess ! index, pc_shouldMatch = False\<rparr>} else {})"
  using assms
  by (auto simp add: gpc_body_def mkPositionConstraint_def set_uset_insert distinct_uset_insert)

lemma gpc_loop_ok:
  assumes "\<forall>i \<in> set is. i < WORD_LENGTH \<and> isupper_AZ (guess ! i)"
  shows "\<exists>cs'. gpc_loop guess feedback is cs = Inr cs'
           \<and> (distinct cs \<longrightarrow> distinct cs')
           \<and> set cs' = set cs
               \<union> {\<lparr>pc_index = i, pc_letter = guess ! i, pc_shouldMatch = True\<rparr> | i.
                    i \<in> set is \<and> feedback ! i = RIGHT_SPOT}
               \<union> {\<lparr>pc_index = i, pc_letter = guess ! i, pc_shouldMatch = False\<rparr> | i.
                    i \<in> set is \<and> feedback ! i = WRONG_SPOT}"
  using assms
proof (induction "is" arbitrary: cs)
  case Nil
  then show ?case by simp
next
  case (Cons index rest)
  from Cons.prems have a: "index < WORD_LENGTH" "isupper_AZ (guess ! index)" by simp_all
  from gpc_body_ok [OF a, of feedback cs] obtain cs1 where
    b: "gpc_body guess feedback index cs = Inr cs1" "distinct cs \<longrightarrow> distinct cs1"
       "set cs1 = set cs
               \<union> (if feedback ! index = RIGHT_SPOT
                  then {\<lparr>pc_index = index, pc_letter = guess ! index, pc_shouldMatch = True\<rparr>} else {})
               \<union> (if feedback ! index = WRONG_SPOT
                  then {\<lparr>pc_index = index, pc_letter = guess ! index, pc_shouldMatch = False\<rparr>} else {})"
    by blast
  from Cons.prems have "\<forall>i \<in> set rest. i < WORD_LENGTH \<and> isupper_AZ (guess ! i)" by simp
  from Cons.IH [OF this, of cs1] obtain cs' where
    c: "gpc_loop guess feedback rest cs1 = Inr cs'" "distinct cs1 \<longrightarrow> distinct cs'"
       "set cs' = set cs1
               \<union> {\<lparr>pc_index = i, pc_letter = guess ! i, pc_shouldMatch = True\<rparr> | i.
                    i \<in> set rest \<and> feedback ! i = RIGHT_SPOT}
               \<union> {\<lparr>pc_index = i, pc_letter = guess ! i, pc_shouldMatch = False\<rparr> | i.
                    i \<in> set rest \<and> feedback ! i = WRONG_SPOT}"
    by blast
  have "gpc_loop guess feedback (index # rest) cs = Inr cs'" using b(1) c(1) by simp
  moreover have "distinct cs \<longrightarrow> distinct cs'" using b(2) c(2) by simp
  moreover have "set cs' = set cs
               \<union> {\<lparr>pc_index = i, pc_letter = guess ! i, pc_shouldMatch = True\<rparr> | i.
                    i \<in> set (index # rest) \<and> feedback ! i = RIGHT_SPOT}
               \<union> {\<lparr>pc_index = i, pc_letter = guess ! i, pc_shouldMatch = False\<rparr> | i.
                    i \<in> set (index # rest) \<and> feedback ! i = WRONG_SPOT}"
    unfolding c(3) b(3) by auto
  ultimately show ?case by blast
qed

text \<open>
  Claim C4. For a guess and a feedback that pass the assertions (both of length
  \<^const>\<open>WORD_LENGTH\<close>, the guess in A to Z, the feedback over the three symbols),
  \<^const>\<open>generatePositionConstraints\<close> returns a set without repetition that holds exactly
  the constraint (index, letter of the guess there, true) of every index with Exact
  feedback and (index, letter of the guess there, false) of every index with Misplaced
  feedback; an index with Absent feedback adds nothing.
\<close>

theorem generatePositionConstraints_exact:
  assumes "inputs_ok guess feedback"
  shows "\<exists>cs. generatePositionConstraints guess feedback = Inr cs \<and> distinct cs
           \<and> set cs =
               {\<lparr>pc_index = i, pc_letter = guess ! i, pc_shouldMatch = True\<rparr> | i.
                  i < WORD_LENGTH \<and> feedback ! i = RIGHT_SPOT}
               \<union> {\<lparr>pc_index = i, pc_letter = guess ! i, pc_shouldMatch = False\<rparr> | i.
                  i < WORD_LENGTH \<and> feedback ! i = WRONG_SPOT}"
proof -
  have "\<forall>i \<in> set [0 ..< WORD_LENGTH]. i < WORD_LENGTH \<and> isupper_AZ (guess ! i)"
    using assms by (simp add: inputs_ok_def list_all_length)
  from gpc_loop_ok [OF this, of feedback "[]"] show ?thesis
    using assms by (simp add: generatePositionConstraints_def)
qed

text \<open>
  The guess CRANE with the feedback Exact, Absent, Absent, Absent, Absent: the result is
  the one constraint that position 0 must be a C.
\<close>

theorem generatePositionConstraints_exact_witness:
  "inputs_ok ''CRANE'' ''GWWWW''
   \<and> generatePositionConstraints ''CRANE'' ''GWWWW''
       = Inr [\<lparr>pc_index = 0, pc_letter = CHR ''C'', pc_shouldMatch = True\<rparr>]
   \<and> {\<lparr>pc_index = 0, pc_letter = CHR ''C'', pc_shouldMatch = True\<rparr>} =
       {\<lparr>pc_index = i, pc_letter = ''CRANE'' ! i, pc_shouldMatch = True\<rparr> | i.
          i < WORD_LENGTH \<and> ''GWWWW'' ! i = RIGHT_SPOT}
       \<union> {\<lparr>pc_index = i, pc_letter = ''CRANE'' ! i, pc_shouldMatch = False\<rparr> | i.
          i < WORD_LENGTH \<and> ''GWWWW'' ! i = WRONG_SPOT}"
proof -
  have h: "inputs_ok ''CRANE'' ''GWWWW''"
    by (simp add: inputs_ok_def WORD_LENGTH_def isupper_AZ_def NOT_THERE_def WRONG_SPOT_def RIGHT_SPOT_def)
  have e: "generatePositionConstraints ''CRANE'' ''GWWWW''
       = Inr [\<lparr>pc_index = 0, pc_letter = CHR ''C'', pc_shouldMatch = True\<rparr>]"
    by code_simp
  from generatePositionConstraints_exact [OF h] show ?thesis
    using h e by simp
qed

text \<open>
  Claim C1. The count of a letter-count constraint should be the number of positions that
  hold the letter of the index and whose own feedback is Misplaced or Exact, so that the
  Absent L at index 1 of ALLOW, with the feedback Misplaced, Absent, Exact, Absent,
  Absent, gives a maximum of 1. The inner loop tests the feedback at the index of the
  outer loop instead: the inputs pass the assertions, the count of the specification for
  L is 1, and the constraint that comes out for L is a maximum of 0.
\<close>

theorem generateLetterCountConstraints_ALLOW:
  "inputs_ok ''ALLOW'' ''YWGWW''
   \<and> spec_confirmed_count ''ALLOW'' ''YWGWW'' (CHR ''L'') = 1
   \<and> generateLetterCountConstraints ''ALLOW'' ''YWGWW''
       = Inr [\<lparr>lc_count = 1, lc_letter = CHR ''A'', lc_min = True\<rparr>,
              \<lparr>lc_count = 0, lc_letter = CHR ''L'', lc_min = False\<rparr>,
              \<lparr>lc_count = 0, lc_letter = CHR ''O'', lc_min = False\<rparr>,
              \<lparr>lc_count = 0, lc_letter = CHR ''W'', lc_min = False\<rparr>]"
  by code_simp

text \<open>
  Claim C10. Every constraint that \<^const>\<open>generateLetterCountConstraints\<close> constructs should
  pass the assertions of the constructor, also for a guess of five equal letters. The
  guess AAAAA with the feedback Misplaced, Absent, Absent, Absent, Absent passes the
  assertions of the function; at index 0 the count is 5, and the constructor's assertion
  that the count is below \<^const>\<open>WORD_LENGTH\<close> fails.
\<close>

theorem generateLetterCountConstraints_AAAAA:
  "inputs_ok ''AAAAA'' ''YWWWW''
   \<and> glc_count ''AAAAA'' ''YWWWW'' 0 ''AAAAA'' 0 = 5
   \<and> spec_confirmed_count ''AAAAA'' ''YWWWW'' (CHR ''A'') = 1
   \<and> generateLetterCountConstraints ''AAAAA'' ''YWWWW'' = Inl AssertionFailed"
  by code_simp

section \<open>Properties of the dictionary loader\<close>

lemma scan_token_eq: "scan_token cs good = (map toupper cs, good \<and> list_all isalpha cs)"
  by (induction cs arbitrary: good) (auto simp: toupper_def isalpha_def)

lemma toupper_upper: "isalpha c \<Longrightarrow> isupper_AZ (toupper c)"
  by (auto simp: isalpha_def toupper_def islower_def isupper_AZ_def)

lemma load_loop_eq:
  "load_loop tokens acc =
     (let ws = map (map toupper) (filter (\<lambda>t. length t = WORD_LENGTH \<and> list_all isalpha t) tokens)
      in if distinct ws \<and> set ws \<inter> set acc = {} then Inr (acc @ ws) else Inl AssertionFailed)"
proof (induction tokens arbitrary: acc)
  case Nil
  then show ?case by simp
next
  case (Cons temp rest)
  show ?case
  proof (cases "length temp = WORD_LENGTH \<and> list_all isalpha temp")
    case False
    then show ?thesis
      using Cons.IH [of acc] by (auto simp: scan_token_eq Let_def)
  next
    case True
    show ?thesis
    proof (cases "map toupper temp \<in> set acc")
      case True
      with \<open>length temp = WORD_LENGTH \<and> list_all isalpha temp\<close> show ?thesis
        by (simp add: scan_token_eq Let_def)
    next
      case False
      with True show ?thesis
        using Cons.IH [of "acc @ [map toupper temp]"]
        by (auto simp: scan_token_eq Let_def uset_insert_def)
    qed
  qed
qed

text \<open>
  Claim C9, as the loader has it. The loader keeps exactly the tokens of exactly
  \<^const>\<open>WORD_LENGTH\<close> alphabetic characters and turns each into upper case; every other
  token is dropped without a word. When the kept tokens in upper case are pairwise
  different, the result is the set of them, each a word of \<^const>\<open>WORD_LENGTH\<close> letters
  in A to Z. When two of them are the same word, the loader does not remove the
  duplicate: its assertion fails.
\<close>

theorem WordCollection_loads:
  "WordCollection tokens =
     (let kept = filter (\<lambda>t. length t = WORD_LENGTH \<and> list_all isalpha t) tokens;
          ws = map (map toupper) kept
      in if distinct ws then Inr ws else Inl AssertionFailed)
   \<and> list_all (\<lambda>w. length w = WORD_LENGTH \<and> list_all isupper_AZ w)
        (map (map toupper) (filter (\<lambda>t. length t = WORD_LENGTH \<and> list_all isalpha t) tokens))"
proof -
  have "list_all (\<lambda>w. length w = WORD_LENGTH \<and> list_all isupper_AZ w)
        (map (map toupper) (filter (\<lambda>t. length t = WORD_LENGTH \<and> list_all isalpha t) tokens))"
    by (auto simp: list_all_iff toupper_upper)
  then show ?thesis
    by (simp add: WordCollection_def load_loop_eq Let_def)
qed

text \<open>
  Seven tokens: two are kept and turned into upper case, one is kept as it is turned, and
  the too short, the too long, the one with a hyphen and the one of digits are dropped.
\<close>

theorem WordCollection_loads_witness:
  "WordCollection [''crane'', ''Crate'', ''abc'', ''ab-de'', ''hello'', ''toolong'', ''12345'']
     = Inr [''CRANE'', ''CRATE'', ''HELLO'']"
proof -
  have e: "(let kept = filter (\<lambda>t. length t = WORD_LENGTH \<and> list_all isalpha t)
                  [''crane'', ''Crate'', ''abc'', ''ab-de'', ''hello'', ''toolong'', ''12345''];
          ws = map (map toupper) kept
      in if distinct ws then Inr ws else Inl AssertionFailed)
       = (Inr [''CRANE'', ''CRATE'', ''HELLO''] :: failure + string list)"
    by code_simp
  from WordCollection_loads [of "[''crane'', ''Crate'', ''abc'', ''ab-de'', ''hello'', ''toolong'', ''12345'']"]
  show ?thesis
    unfolding e by (rule conjunct1)
qed

text \<open>
  A dictionary that holds crane in lower case and in upper case: the claim as stated
  asks for the one word CRANE, and the loader aborts.
\<close>

theorem WordCollection_case_variants:
  "WordCollection [''crane'', ''CRANE''] = Inl AssertionFailed"
  by code_simp

section \<open>Properties of the collection of constraints\<close>

lemma uset_insert_idem: "uset_insert x (uset_insert x xs) = uset_insert x xs"
  by (simp add: uset_insert_def)

lemma addPositionConstraint_twice:
  "addPositionConstraint c (addPositionConstraint c cc) = addPositionConstraint c cc"
  by (simp add: addPositionConstraint_def uset_insert_idem)

lemma addLetterCountConstraint_twice:
  "addLetterCountConstraint c (addLetterCountConstraint c cc) = addLetterCountConstraint c cc"
  by (simp add: addLetterCountConstraint_def uset_insert_idem)

lemma processNewConstraints_Inr:
  assumes "processNewConstraints cc pool = Inr (cc1, pool1)"
  shows "candidates_loop cc pool = Inr pool1"
    and "set (m_finishedPositionConstraints cc1)
           = set (m_finishedPositionConstraints cc) \<union> set (m_newPositionConstraints cc)"
    and "set (m_finishedLetterCountConstraints cc1)
           = set (m_finishedLetterCountConstraints cc) \<union> set (m_newLetterCountConstraints cc)"
    and "m_newPositionConstraints cc1 = []"
    and "m_newLetterCountConstraints cc1 = []"
  using assms
  by (auto simp: processNewConstraints_def uset_merge_def Let_def split: sum.splits if_splits)

text \<open>
  Claim C6. Admission is idempotent, for both kinds of constraint and every state of the
  collection: admitting a constraint a second time in the same round changes nothing
  after the first admission; a constraint that is among the finished ones is not added
  to the new ones, the state stays as it is; and once \<^const>\<open>processNewConstraints\<close> has
  promoted an admitted constraint, admitting it again leaves the state as it is.
\<close>

theorem admission_idempotent:
  "addPositionConstraint p (addPositionConstraint p cc) = addPositionConstraint p cc
   \<and> addLetterCountConstraint l (addLetterCountConstraint l cc) = addLetterCountConstraint l cc
   \<and> (p \<in> set (m_finishedPositionConstraints cc) \<longrightarrow> addPositionConstraint p cc = cc)
   \<and> (l \<in> set (m_finishedLetterCountConstraints cc) \<longrightarrow> addLetterCountConstraint l cc = cc)
   \<and> (processNewConstraints (addPositionConstraint p cc) pool = Inr (cc1, pool1)
        \<longrightarrow> addPositionConstraint p cc1 = cc1)
   \<and> (processNewConstraints (addLetterCountConstraint l cc) pool = Inr (cc2, pool2)
        \<longrightarrow> addLetterCountConstraint l cc2 = cc2)"
proof -
  have a: "addPositionConstraint p cc1 = cc1"
    if "processNewConstraints (addPositionConstraint p cc) pool = Inr (cc1, pool1)"
  proof -
    have "p \<in> set (m_finishedPositionConstraints (addPositionConstraint p cc))
             \<union> set (m_newPositionConstraints (addPositionConstraint p cc))"
      by (simp add: addPositionConstraint_def set_uset_insert)
    then have "p \<in> set (m_finishedPositionConstraints cc1)"
      using processNewConstraints_Inr(2) [OF that] by simp
    then show ?thesis by (simp add: addPositionConstraint_def)
  qed
  have b: "addLetterCountConstraint l cc2 = cc2"
    if "processNewConstraints (addLetterCountConstraint l cc) pool = Inr (cc2, pool2)"
  proof -
    have "l \<in> set (m_finishedLetterCountConstraints (addLetterCountConstraint l cc))
             \<union> set (m_newLetterCountConstraints (addLetterCountConstraint l cc))"
      by (simp add: addLetterCountConstraint_def set_uset_insert)
    then have "l \<in> set (m_finishedLetterCountConstraints cc2)"
      using processNewConstraints_Inr(3) [OF that] by simp
    then show ?thesis by (simp add: addLetterCountConstraint_def)
  qed
  have c: "p \<in> set (m_finishedPositionConstraints cc) \<longrightarrow> addPositionConstraint p cc = cc"
    by (simp add: addPositionConstraint_def)
  have d: "l \<in> set (m_finishedLetterCountConstraints cc) \<longrightarrow> addLetterCountConstraint l cc = cc"
    by (simp add: addLetterCountConstraint_def)
  from a b c d addPositionConstraint_twice addLetterCountConstraint_twice
  show ?thesis by blast
qed

text \<open>
  From the empty collection, on the pool of CRANE and GRADE: the constraint that position
  0 must be a C, and the constraint of at most 0 copies of N, each admitted, promoted and
  admitted again.
\<close>

theorem admission_idempotent_witness:
  "processNewConstraints
      (addPositionConstraint \<lparr>pc_index = 0, pc_letter = CHR ''C'', pc_shouldMatch = True\<rparr> no_constraints)
      [''CRANE'', ''GRADE'']
     = Inr (\<lparr>m_finishedPositionConstraints =
                [\<lparr>pc_index = 0, pc_letter = CHR ''C'', pc_shouldMatch = True\<rparr>],
             m_finishedLetterCountConstraints = [],
             m_newPositionConstraints = [], m_newLetterCountConstraints = []\<rparr>, [''CRANE''])
   \<and> addPositionConstraint \<lparr>pc_index = 0, pc_letter = CHR ''C'', pc_shouldMatch = True\<rparr>
        \<lparr>m_finishedPositionConstraints =
                [\<lparr>pc_index = 0, pc_letter = CHR ''C'', pc_shouldMatch = True\<rparr>],
             m_finishedLetterCountConstraints = [],
             m_newPositionConstraints = [], m_newLetterCountConstraints = []\<rparr>
     = \<lparr>m_finishedPositionConstraints =
                [\<lparr>pc_index = 0, pc_letter = CHR ''C'', pc_shouldMatch = True\<rparr>],
             m_finishedLetterCountConstraints = [],
             m_newPositionConstraints = [], m_newLetterCountConstraints = []\<rparr>
   \<and> processNewConstraints
      (addLetterCountConstraint \<lparr>lc_count = 0, lc_letter = CHR ''N'', lc_min = False\<rparr> no_constraints)
      [''CRANE'', ''GRADE'']
     = Inr (\<lparr>m_finishedPositionConstraints = [],
             m_finishedLetterCountConstraints =
                [\<lparr>lc_count = 0, lc_letter = CHR ''N'', lc_min = False\<rparr>],
             m_newPositionConstraints = [], m_newLetterCountConstraints = []\<rparr>, [''GRADE''])
   \<and> addLetterCountConstraint \<lparr>lc_count = 0, lc_letter = CHR ''N'', lc_min = False\<rparr>
        \<lparr>m_finishedPositionConstraints = [],
             m_finishedLetterCountConstraints =
                [\<lparr>lc_count = 0, lc_letter = CHR ''N'', lc_min = False\<rparr>],
             m_newPositionConstraints = [], m_newLetterCountConstraints = []\<rparr>
     = \<lparr>m_finishedPositionConstraints = [],
             m_finishedLetterCountConstraints =
                [\<lparr>lc_count = 0, lc_letter = CHR ''N'', lc_min = False\<rparr>],
             m_newPositionConstraints = [], m_newLetterCountConstraints = []\<rparr>"
proof -
  have e1: "processNewConstraints
      (addPositionConstraint \<lparr>pc_index = 0, pc_letter = CHR ''C'', pc_shouldMatch = True\<rparr> no_constraints)
      [''CRANE'', ''GRADE'']
     = Inr (\<lparr>m_finishedPositionConstraints =
                [\<lparr>pc_index = 0, pc_letter = CHR ''C'', pc_shouldMatch = True\<rparr>],
             m_finishedLetterCountConstraints = [],
             m_newPositionConstraints = [], m_newLetterCountConstraints = []\<rparr>, [''CRANE''])"
    by code_simp
  have e2: "processNewConstraints
      (addLetterCountConstraint \<lparr>lc_count = 0, lc_letter = CHR ''N'', lc_min = False\<rparr> no_constraints)
      [''CRANE'', ''GRADE'']
     = Inr (\<lparr>m_finishedPositionConstraints = [],
             m_finishedLetterCountConstraints =
                [\<lparr>lc_count = 0, lc_letter = CHR ''N'', lc_min = False\<rparr>],
             m_newPositionConstraints = [], m_newLetterCountConstraints = []\<rparr>, [''GRADE''])"
    by code_simp
  from admission_idempotent [where cc = no_constraints and pool = "[''CRANE'', ''GRADE'']"
      and p = "\<lparr>pc_index = 0, pc_letter = CHR ''C'', pc_shouldMatch = True\<rparr>"
      and l = "\<lparr>lc_count = 0, lc_letter = CHR ''N'', lc_min = False\<rparr>"
      and ?cc1.0 = "\<lparr>m_finishedPositionConstraints =
                [\<lparr>pc_index = 0, pc_letter = CHR ''C'', pc_shouldMatch = True\<rparr>],
             m_finishedLetterCountConstraints = [],
             m_newPositionConstraints = [], m_newLetterCountConstraints = []\<rparr>"
      and ?pool1.0 = "[''CRANE'']"
      and ?cc2.0 = "\<lparr>m_finishedPositionConstraints = [],
             m_finishedLetterCountConstraints =
                [\<lparr>lc_count = 0, lc_letter = CHR ''N'', lc_min = False\<rparr>],
             m_newPositionConstraints = [], m_newLetterCountConstraints = []\<rparr>"
      and ?pool2.0 = "[''GRADE'']"] e1 e2
  show ?thesis by blast
qed

section \<open>Properties of the rounds\<close>

lemma position_loop_eq:
  "list_all (\<lambda>c. pc_index c < length w) cs \<Longrightarrow>
   position_loop cs w = Inr (list_all (\<lambda>c. satisfiesP c w = Inr True) cs)"
  by (induction cs) (auto simp: satisfiesP_def)

lemma count_loop_eq: "count_loop cs w = list_all (\<lambda>c. satisfiesL c w) cs"
  by (induction cs) auto

lemma candidates_loop_eq:
  assumes "list_all (\<lambda>c. pc_index c < WORD_LENGTH) (m_newPositionConstraints cc)"
    and "list_all (\<lambda>w. length w = WORD_LENGTH) pool"
  shows "candidates_loop cc pool =
           Inr (filter (\<lambda>w. list_all (\<lambda>c. satisfiesP c w = Inr True) (m_newPositionConstraints cc)
                           \<and> list_all (\<lambda>c. satisfiesL c w) (m_newLetterCountConstraints cc)) pool)"
  using assms(2)
proof (induction pool)
  case Nil
  then show ?case by simp
next
  case (Cons word rest)
  then have "length word = WORD_LENGTH" by simp
  with assms(1) have "list_all (\<lambda>c. pc_index c < length word) (m_newPositionConstraints cc)"
    by simp
  from position_loop_eq [OF this] Cons show ?case
    by (simp add: count_loop_eq)
qed

lemma fold_addPositionConstraint:
  "m_finishedPositionConstraints (fold addPositionConstraint cs cc) = m_finishedPositionConstraints cc
   \<and> m_finishedLetterCountConstraints (fold addPositionConstraint cs cc) = m_finishedLetterCountConstraints cc
   \<and> m_newLetterCountConstraints (fold addPositionConstraint cs cc) = m_newLetterCountConstraints cc
   \<and> set (m_newPositionConstraints (fold addPositionConstraint cs cc))
       = set (m_newPositionConstraints cc) \<union> (set cs - set (m_finishedPositionConstraints cc))"
  by (induction cs arbitrary: cc) (auto simp: addPositionConstraint_def set_uset_insert)

lemma fold_addLetterCountConstraint:
  "m_finishedPositionConstraints (fold addLetterCountConstraint cs cc) = m_finishedPositionConstraints cc
   \<and> m_finishedLetterCountConstraints (fold addLetterCountConstraint cs cc) = m_finishedLetterCountConstraints cc
   \<and> m_newPositionConstraints (fold addLetterCountConstraint cs cc) = m_newPositionConstraints cc
   \<and> set (m_newLetterCountConstraints (fold addLetterCountConstraint cs cc))
       = set (m_newLetterCountConstraints cc) \<union> (set cs - set (m_finishedLetterCountConstraints cc))"
  by (induction cs arbitrary: cc) (auto simp: addLetterCountConstraint_def set_uset_insert)

lemma admit_batch_fields:
  "m_finishedPositionConstraints (admit_batch b cc) = m_finishedPositionConstraints cc"
  "m_finishedLetterCountConstraints (admit_batch b cc) = m_finishedLetterCountConstraints cc"
  "set (m_newPositionConstraints (admit_batch b cc))
     = set (m_newPositionConstraints cc) \<union> (set (fst b) - set (m_finishedPositionConstraints cc))"
  "set (m_newLetterCountConstraints (admit_batch b cc))
     = set (m_newLetterCountConstraints cc) \<union> (set (snd b) - set (m_finishedLetterCountConstraints cc))"
  by (simp_all add: admit_batch_def fold_addPositionConstraint fold_addLetterCountConstraint)

lemma processNewConstraints_ok:
  assumes "set (m_newPositionConstraints cc) \<inter> set (m_finishedPositionConstraints cc) = {}"
    and "set (m_newLetterCountConstraints cc) \<inter> set (m_finishedLetterCountConstraints cc) = {}"
    and "list_all (\<lambda>c. pc_index c < WORD_LENGTH) (m_newPositionConstraints cc)"
    and "list_all (\<lambda>w. length w = WORD_LENGTH) pool"
  shows "processNewConstraints cc pool =
           Inr (\<lparr>m_finishedPositionConstraints = m_finishedPositionConstraints cc @ m_newPositionConstraints cc,
                 m_finishedLetterCountConstraints = m_finishedLetterCountConstraints cc @ m_newLetterCountConstraints cc,
                 m_newPositionConstraints = [], m_newLetterCountConstraints = []\<rparr>,
                filter (\<lambda>w. list_all (\<lambda>c. satisfiesP c w = Inr True) (m_newPositionConstraints cc)
                           \<and> list_all (\<lambda>c. satisfiesL c w) (m_newLetterCountConstraints cc)) pool)"
proof -
  have p: "filter (\<lambda>x. x \<notin> set (m_finishedPositionConstraints cc)) (m_newPositionConstraints cc)
             = m_newPositionConstraints cc"
       "filter (\<lambda>x. x \<in> set (m_finishedPositionConstraints cc)) (m_newPositionConstraints cc) = []"
    using assms(1) by (auto simp: filter_id_conv filter_empty_conv)
  have l: "filter (\<lambda>x. x \<notin> set (m_finishedLetterCountConstraints cc)) (m_newLetterCountConstraints cc)
             = m_newLetterCountConstraints cc"
       "filter (\<lambda>x. x \<in> set (m_finishedLetterCountConstraints cc)) (m_newLetterCountConstraints cc) = []"
    using assms(2) by (auto simp: filter_id_conv filter_empty_conv)
  show ?thesis
    by (simp add: processNewConstraints_def candidates_loop_eq [OF assms(3,4)] uset_merge_def p l)
qed

lemma round_step:
  assumes "round_inv cc pool" and "list_all (\<lambda>c. pc_index c < WORD_LENGTH) (fst b)"
  shows "\<exists>cc1 pool1. processNewConstraints (admit_batch b cc) pool = Inr (cc1, pool1)
           \<and> round_inv cc1 pool1
           \<and> set (m_finishedPositionConstraints cc1) = set (m_finishedPositionConstraints cc) \<union> set (fst b)
           \<and> set (m_finishedLetterCountConstraints cc1) = set (m_finishedLetterCountConstraints cc) \<union> set (snd b)
           \<and> set pool1 \<subseteq> set pool \<and> length pool1 \<le> length pool"
proof -
  let ?cc = "admit_batch b cc"
  let ?good = "\<lambda>w. list_all (\<lambda>c. satisfiesP c w = Inr True) (m_newPositionConstraints ?cc)
                           \<and> list_all (\<lambda>c. satisfiesL c w) (m_newLetterCountConstraints ?cc)"
  from assms(1) have n: "m_newPositionConstraints cc = []" "m_newLetterCountConstraints cc = []"
    and v: "list_all (\<lambda>c. pc_index c < WORD_LENGTH) (m_finishedPositionConstraints cc)"
    and len: "list_all (\<lambda>w. length w = WORD_LENGTH) pool"
    and sat: "list_all (\<lambda>w. list_all (\<lambda>c. satisfiesP c w = Inr True) (m_finishedPositionConstraints cc)
                    \<and> list_all (\<lambda>c. satisfiesL c w) (m_finishedLetterCountConstraints cc)) pool"
    by (simp_all add: round_inv_def)
  have sP: "set (m_newPositionConstraints ?cc) = set (fst b) - set (m_finishedPositionConstraints cc)"
    and sL: "set (m_newLetterCountConstraints ?cc) = set (snd b) - set (m_finishedLetterCountConstraints cc)"
    using n by (simp_all add: admit_batch_fields)
  have a1: "set (m_newPositionConstraints ?cc) \<inter> set (m_finishedPositionConstraints ?cc) = {}"
    using sP by (auto simp: admit_batch_fields)
  have a2: "set (m_newLetterCountConstraints ?cc) \<inter> set (m_finishedLetterCountConstraints ?cc) = {}"
    using sL by (auto simp: admit_batch_fields)
  have a3: "list_all (\<lambda>c. pc_index c < WORD_LENGTH) (m_newPositionConstraints ?cc)"
    using assms(2) sP by (auto simp: list_all_iff)
  note e = processNewConstraints_ok [OF a1 a2 a3 len]
  let ?cc1 = "\<lparr>m_finishedPositionConstraints = m_finishedPositionConstraints ?cc @ m_newPositionConstraints ?cc,
                 m_finishedLetterCountConstraints = m_finishedLetterCountConstraints ?cc @ m_newLetterCountConstraints ?cc,
                 m_newPositionConstraints = [], m_newLetterCountConstraints = []\<rparr>"
  have i: "round_inv ?cc1 (filter ?good pool)"
    using v len sat a3 by (auto simp: round_inv_def list_all_iff admit_batch_fields)
  have f1: "set (m_finishedPositionConstraints ?cc1) = set (m_finishedPositionConstraints cc) \<union> set (fst b)"
    using sP by (auto simp: admit_batch_fields)
  have f2: "set (m_finishedLetterCountConstraints ?cc1) = set (m_finishedLetterCountConstraints cc) \<union> set (snd b)"
    using sL by (auto simp: admit_batch_fields)
  have "set (filter ?good pool) \<subseteq> set pool \<and> length (filter ?good pool) \<le> length pool"
    by simp
  with e i f1 f2 show ?thesis by blast
qed

lemma run_batches_ok:
  assumes "round_inv cc pool"
    and "list_all (\<lambda>b. list_all (\<lambda>c. pc_index c < WORD_LENGTH) (fst b)) batches"
  shows "\<exists>cc1 pool1. run_batches batches cc pool = Inr (cc1, pool1)
           \<and> round_inv cc1 pool1
           \<and> set (m_finishedPositionConstraints cc1)
               = set (m_finishedPositionConstraints cc) \<union> (\<Union>b \<in> set batches. set (fst b))
           \<and> set (m_finishedLetterCountConstraints cc1)
               = set (m_finishedLetterCountConstraints cc) \<union> (\<Union>b \<in> set batches. set (snd b))
           \<and> set pool1 \<subseteq> set pool \<and> length pool1 \<le> length pool"
  using assms
proof (induction batches arbitrary: cc pool)
  case Nil
  then show ?case by simp
next
  case (Cons b bs)
  from Cons.prems have vb: "list_all (\<lambda>c. pc_index c < WORD_LENGTH) (fst b)"
    and vbs: "list_all (\<lambda>b. list_all (\<lambda>c. pc_index c < WORD_LENGTH) (fst b)) bs"
    by simp_all
  from round_step [OF Cons.prems(1) vb] obtain cc1 pool1 where
    s: "processNewConstraints (admit_batch b cc) pool = Inr (cc1, pool1)" "round_inv cc1 pool1"
       "set (m_finishedPositionConstraints cc1) = set (m_finishedPositionConstraints cc) \<union> set (fst b)"
       "set (m_finishedLetterCountConstraints cc1) = set (m_finishedLetterCountConstraints cc) \<union> set (snd b)"
       "set pool1 \<subseteq> set pool" "length pool1 \<le> length pool"
    by blast
  from Cons.IH [OF s(2) vbs] obtain cc2 pool2 where
    r: "run_batches bs cc1 pool1 = Inr (cc2, pool2)" "round_inv cc2 pool2"
       "set (m_finishedPositionConstraints cc2)
               = set (m_finishedPositionConstraints cc1) \<union> (\<Union>b \<in> set bs. set (fst b))"
       "set (m_finishedLetterCountConstraints cc2)
               = set (m_finishedLetterCountConstraints cc1) \<union> (\<Union>b \<in> set bs. set (snd b))"
       "set pool2 \<subseteq> set pool1" "length pool2 \<le> length pool1"
    by blast
  have "run_batches (b # bs) cc pool = Inr (cc2, pool2)" using s(1) r(1) by simp
  moreover have "set (m_finishedPositionConstraints cc2)
               = set (m_finishedPositionConstraints cc) \<union> (\<Union>b \<in> set (b # bs). set (fst b))"
    using s(3) r(3) by auto
  moreover have "set (m_finishedLetterCountConstraints cc2)
               = set (m_finishedLetterCountConstraints cc) \<union> (\<Union>b \<in> set (b # bs). set (snd b))"
    using s(4) r(4) by auto
  moreover have "set pool2 \<subseteq> set pool" "length pool2 \<le> length pool"
    using s(5,6) r(5,6) by auto
  ultimately show ?case using r(2) by blast
qed

lemma run_batches_append:
  "run_batches (bs1 @ bs2) cc pool =
     (case run_batches bs1 cc pool of Inl e \<Rightarrow> Inl e | Inr (cc1, pool1) \<Rightarrow> run_batches bs2 cc1 pool1)"
  by (induction bs1 arbitrary: cc pool) (auto split: sum.splits)

lemma round_inv_start:
  "list_all (\<lambda>w. length w = WORD_LENGTH) pool \<Longrightarrow> round_inv no_constraints pool"
  by (simp add: round_inv_def no_constraints_def list_all_iff)

text \<open>
  Claim C5. The game starts with no constraint and a pool of words of \<^const>\<open>WORD_LENGTH\<close>
  characters, and every round admits a batch of constraints (the position constraints
  having passed the constructor's assertion on the index) and calls
  \<^const>\<open>processNewConstraints\<close> on the pool. After every such call the call has returned,
  the finished sets hold exactly the constraints admitted so far, and every word that
  remains in the pool satisfies every finished constraint of both kinds.
\<close>

theorem finished_constraints_hold:
  assumes "list_all (\<lambda>w. length w = WORD_LENGTH) pool"
    and "list_all (\<lambda>b. list_all (\<lambda>c. pc_index c < WORD_LENGTH) (fst b)) batches"
  shows "\<exists>cc pool1. run_batches batches no_constraints pool = Inr (cc, pool1)
           \<and> set (m_finishedPositionConstraints cc) = (\<Union>b \<in> set batches. set (fst b))
           \<and> set (m_finishedLetterCountConstraints cc) = (\<Union>b \<in> set batches. set (snd b))
           \<and> (\<forall>w \<in> set pool1.
                 (\<forall>c \<in> set (m_finishedPositionConstraints cc). satisfiesP c w = Inr True)
                 \<and> (\<forall>c \<in> set (m_finishedLetterCountConstraints cc). satisfiesL c w))"
proof -
  from run_batches_ok [OF round_inv_start [OF assms(1)] assms(2)] obtain cc pool1 where
    r: "run_batches batches no_constraints pool = Inr (cc, pool1)" "round_inv cc pool1"
       "set (m_finishedPositionConstraints cc)
               = set (m_finishedPositionConstraints no_constraints) \<union> (\<Union>b \<in> set batches. set (fst b))"
       "set (m_finishedLetterCountConstraints cc)
               = set (m_finishedLetterCountConstraints no_constraints) \<union> (\<Union>b \<in> set batches. set (snd b))"
    by blast
  from r(2) have "\<forall>w \<in> set pool1.
                 (\<forall>c \<in> set (m_finishedPositionConstraints cc). satisfiesP c w = Inr True)
                 \<and> (\<forall>c \<in> set (m_finishedLetterCountConstraints cc). satisfiesL c w)"
    by (simp add: round_inv_def list_all_iff)
  with r(1,3,4) show ?thesis by (simp add: no_constraints_def)
qed

text \<open>
  Claim C7. The pool is monotone: for every sequence of admitted batches, cut at any
  point into the rounds played so far and the rounds that follow, the pool after the
  later rounds is a subset of the pool after the earlier ones and has at most as many
  words, and that pool in turn is a subset of the initial pool. So each call of
  \<^const>\<open>processNewConstraints\<close> only removes words, and a word once removed is never in a
  later pool.
\<close>

theorem pool_only_shrinks:
  assumes "list_all (\<lambda>w. length w = WORD_LENGTH) pool"
    and "list_all (\<lambda>b. list_all (\<lambda>c. pc_index c < WORD_LENGTH) (fst b)) (bs1 @ bs2)"
  shows "\<exists>cc1 pool1 cc2 pool2.
           run_batches bs1 no_constraints pool = Inr (cc1, pool1)
           \<and> run_batches (bs1 @ bs2) no_constraints pool = Inr (cc2, pool2)
           \<and> set pool2 \<subseteq> set pool1 \<and> length pool2 \<le> length pool1
           \<and> set pool1 \<subseteq> set pool \<and> length pool1 \<le> length pool"
proof -
  from assms(2) have v1: "list_all (\<lambda>b. list_all (\<lambda>c. pc_index c < WORD_LENGTH) (fst b)) bs1"
    and v2: "list_all (\<lambda>b. list_all (\<lambda>c. pc_index c < WORD_LENGTH) (fst b)) bs2"
    by simp_all
  from run_batches_ok [OF round_inv_start [OF assms(1)] v1] obtain cc1 pool1 where
    a: "run_batches bs1 no_constraints pool = Inr (cc1, pool1)" "round_inv cc1 pool1"
       "set pool1 \<subseteq> set pool" "length pool1 \<le> length pool"
    by blast
  from run_batches_ok [OF a(2) v2] obtain cc2 pool2 where
    b: "run_batches bs2 cc1 pool1 = Inr (cc2, pool2)"
       "set pool2 \<subseteq> set pool1" "length pool2 \<le> length pool1"
    by blast
  have "run_batches (bs1 @ bs2) no_constraints pool = Inr (cc2, pool2)"
    using a(1) b(1) by (simp add: run_batches_append)
  with a b show ?thesis by blast
qed


text \<open>
  One round on the pool of CRANE, CRATE and GRADE: position 0 must be a C, and at most 0
  copies of N; CRATE remains.
\<close>

theorem finished_constraints_hold_witness:
  "list_all (\<lambda>w. length w = WORD_LENGTH) [''CRANE'', ''CRATE'', ''GRADE'']
   \<and> run_batches
        [([\<lparr>pc_index = 0, pc_letter = CHR ''C'', pc_shouldMatch = True\<rparr>],
          [\<lparr>lc_count = 0, lc_letter = CHR ''N'', lc_min = False\<rparr>])]
        no_constraints [''CRANE'', ''CRATE'', ''GRADE'']
       = Inr (\<lparr>m_finishedPositionConstraints =
                  [\<lparr>pc_index = 0, pc_letter = CHR ''C'', pc_shouldMatch = True\<rparr>],
               m_finishedLetterCountConstraints =
                  [\<lparr>lc_count = 0, lc_letter = CHR ''N'', lc_min = False\<rparr>],
               m_newPositionConstraints = [], m_newLetterCountConstraints = []\<rparr>, [''CRATE''])
   \<and> satisfiesP \<lparr>pc_index = 0, pc_letter = CHR ''C'', pc_shouldMatch = True\<rparr> ''CRATE'' = Inr True
   \<and> satisfiesL \<lparr>lc_count = 0, lc_letter = CHR ''N'', lc_min = False\<rparr> ''CRATE''"
proof -
  have h1: "list_all (\<lambda>w. length w = WORD_LENGTH) [''CRANE'', ''CRATE'', ''GRADE'']"
    by (simp add: WORD_LENGTH_def)
  have h2: "list_all (\<lambda>b. list_all (\<lambda>c. pc_index c < WORD_LENGTH) (fst b))
        [([\<lparr>pc_index = 0, pc_letter = CHR ''C'', pc_shouldMatch = True\<rparr>],
          [\<lparr>lc_count = 0, lc_letter = CHR ''N'', lc_min = False\<rparr>])]"
    by (simp add: WORD_LENGTH_def)
  have e: "run_batches
        [([\<lparr>pc_index = 0, pc_letter = CHR ''C'', pc_shouldMatch = True\<rparr>],
          [\<lparr>lc_count = 0, lc_letter = CHR ''N'', lc_min = False\<rparr>])]
        no_constraints [''CRANE'', ''CRATE'', ''GRADE'']
       = Inr (\<lparr>m_finishedPositionConstraints =
                  [\<lparr>pc_index = 0, pc_letter = CHR ''C'', pc_shouldMatch = True\<rparr>],
               m_finishedLetterCountConstraints =
                  [\<lparr>lc_count = 0, lc_letter = CHR ''N'', lc_min = False\<rparr>],
               m_newPositionConstraints = [], m_newLetterCountConstraints = []\<rparr>, [''CRATE''])"
    by code_simp
  from finished_constraints_hold [OF h1 h2] show ?thesis
    using h1 e by auto
qed

text \<open>
  Two rounds on the pool of CRANE, CRATE and GRADE: the first leaves CRANE and CRATE, the
  second CRATE.
\<close>

theorem pool_only_shrinks_witness:
  "list_all (\<lambda>w. length w = WORD_LENGTH) [''CRANE'', ''CRATE'', ''GRADE'']
   \<and> run_batches [([\<lparr>pc_index = 0, pc_letter = CHR ''C'', pc_shouldMatch = True\<rparr>], [])]
        no_constraints [''CRANE'', ''CRATE'', ''GRADE'']
       = Inr (\<lparr>m_finishedPositionConstraints =
                  [\<lparr>pc_index = 0, pc_letter = CHR ''C'', pc_shouldMatch = True\<rparr>],
               m_finishedLetterCountConstraints = [],
               m_newPositionConstraints = [], m_newLetterCountConstraints = []\<rparr>,
              [''CRANE'', ''CRATE''])
   \<and> run_batches
        ([([\<lparr>pc_index = 0, pc_letter = CHR ''C'', pc_shouldMatch = True\<rparr>], [])]
         @ [([], [\<lparr>lc_count = 0, lc_letter = CHR ''N'', lc_min = False\<rparr>])])
        no_constraints [''CRANE'', ''CRATE'', ''GRADE'']
       = Inr (\<lparr>m_finishedPositionConstraints =
                  [\<lparr>pc_index = 0, pc_letter = CHR ''C'', pc_shouldMatch = True\<rparr>],
               m_finishedLetterCountConstraints =
                  [\<lparr>lc_count = 0, lc_letter = CHR ''N'', lc_min = False\<rparr>],
               m_newPositionConstraints = [], m_newLetterCountConstraints = []\<rparr>, [''CRATE''])
   \<and> set [''CRATE''] \<subseteq> set [''CRANE'', ''CRATE'']
   \<and> set [''CRANE'', ''CRATE''] \<subseteq> set [''CRANE'', ''CRATE'', ''GRADE'']"
proof -
  have h1: "list_all (\<lambda>w. length w = WORD_LENGTH) [''CRANE'', ''CRATE'', ''GRADE'']"
    by (simp add: WORD_LENGTH_def)
  have h2: "list_all (\<lambda>b. list_all (\<lambda>c. pc_index c < WORD_LENGTH) (fst b))
        ([([\<lparr>pc_index = 0, pc_letter = CHR ''C'', pc_shouldMatch = True\<rparr>], [])]
         @ [([], [\<lparr>lc_count = 0, lc_letter = CHR ''N'', lc_min = False\<rparr>])])"
    by (simp add: WORD_LENGTH_def)
  have e1: "run_batches [([\<lparr>pc_index = 0, pc_letter = CHR ''C'', pc_shouldMatch = True\<rparr>], [])]
        no_constraints [''CRANE'', ''CRATE'', ''GRADE'']
       = Inr (\<lparr>m_finishedPositionConstraints =
                  [\<lparr>pc_index = 0, pc_letter = CHR ''C'', pc_shouldMatch = True\<rparr>],
               m_finishedLetterCountConstraints = [],
               m_newPositionConstraints = [], m_newLetterCountConstraints = []\<rparr>,
              [''CRANE'', ''CRATE''])"
    by code_simp
  have e2: "run_batches
        ([([\<lparr>pc_index = 0, pc_letter = CHR ''C'', pc_shouldMatch = True\<rparr>], [])]
         @ [([], [\<lparr>lc_count = 0, lc_letter = CHR ''N'', lc_min = False\<rparr>])])
        no_constraints [''CRANE'', ''CRATE'', ''GRADE'']
       = Inr (\<lparr>m_finishedPositionConstraints =
                  [\<lparr>pc_index = 0, pc_letter = CHR ''C'', pc_shouldMatch = True\<rparr>],
               m_finishedLetterCountConstraints =
                  [\<lparr>lc_count = 0, lc_letter = CHR ''N'', lc_min = False\<rparr>],
               m_newPositionConstraints = [], m_newLetterCountConstraints = []\<rparr>, [''CRATE''])"
    by code_simp
  from pool_only_shrinks [OF h1 h2] obtain cc1 pool1 cc2 pool2 where
    r: "run_batches [([\<lparr>pc_index = 0, pc_letter = CHR ''C'', pc_shouldMatch = True\<rparr>], [])]
          no_constraints [''CRANE'', ''CRATE'', ''GRADE''] = Inr (cc1, pool1)"
       "run_batches
        ([([\<lparr>pc_index = 0, pc_letter = CHR ''C'', pc_shouldMatch = True\<rparr>], [])]
         @ [([], [\<lparr>lc_count = 0, lc_letter = CHR ''N'', lc_min = False\<rparr>])])
        no_constraints [''CRANE'', ''CRATE'', ''GRADE''] = Inr (cc2, pool2)"
       "set pool2 \<subseteq> set pool1" "set pool1 \<subseteq> set [''CRANE'', ''CRATE'', ''GRADE'']"
    by blast
  from r(1) e1 have p1: "pool1 = [''CRANE'', ''CRATE'']" by simp
  from r(2) e2 have p2: "pool2 = [''CRATE'']" by simp
  from r(3,4) show ?thesis
    unfolding p1 p2 using h1 e1 e2 by blast
qed

text \<open>
  A round of \<^verbatim>\<open>main\<close> that goes on is a run of one batch, the constraints that the two
  \<^verbatim>\<open>generate\<close> functions derive, and its position constraints have passed the
  constructor: the statements about runs of batches are statements about the game.
\<close>

lemma generatePositionConstraints_valid:
  assumes "generatePositionConstraints guess feedback = Inr pcs"
  shows "list_all (\<lambda>c. pc_index c < WORD_LENGTH) pcs"
proof -
  from assms have ok: "inputs_ok guess feedback"
    by (simp add: generatePositionConstraints_def split: if_splits)
  then have "\<forall>i \<in> set [0 ..< WORD_LENGTH]. i < WORD_LENGTH \<and> isupper_AZ (guess ! i)"
    by (simp add: inputs_ok_def list_all_length)
  from gpc_loop_ok [OF this, of feedback "[]"] obtain cs where
    c: "gpc_loop guess feedback [0 ..< WORD_LENGTH] [] = Inr cs"
       "set cs = set []
               \<union> {\<lparr>pc_index = i, pc_letter = guess ! i, pc_shouldMatch = True\<rparr> | i.
                    i \<in> set [0 ..< WORD_LENGTH] \<and> feedback ! i = RIGHT_SPOT}
               \<union> {\<lparr>pc_index = i, pc_letter = guess ! i, pc_shouldMatch = False\<rparr> | i.
                    i \<in> set [0 ..< WORD_LENGTH] \<and> feedback ! i = WRONG_SPOT}"
    by blast
  from assms ok c(1) have "pcs = cs" by (simp add: generatePositionConstraints_def)
  have "pc_index x < WORD_LENGTH" if "x \<in> set cs" for x
  proof -
    from that [unfolded c(2)] obtain i where "i \<in> set [0 ..< WORD_LENGTH]" "pc_index x = i"
      by auto
    then show ?thesis by simp
  qed
  with \<open>pcs = cs\<close> show ?thesis by (simp add: list_all_iff)
qed

lemma main_round_is_batch:
  assumes "main_round visit r current_feedback g = Inr (NextRound g1)"
  shows "\<exists>b. list_all (\<lambda>c. pc_index c < WORD_LENGTH) (fst b)
           \<and> run_batches [b] (constraints g) (words g) = Inr (constraints g1, words g1)"
proof -
  from assms obtain current_guess pcs lcs cc1 words1 where
    a: "generatePositionConstraints current_guess current_feedback = Inr pcs"
       "processNewConstraints (admit_batch (pcs, lcs) (constraints g)) (words g) = Inr (cc1, words1)"
       "g1 = \<lparr>words = words1, constraints = cc1, numGuesses = numGuesses g + 1\<rparr>"
    by (auto simp: main_round_def Let_def split: if_splits sum.splits)
  from a(1) have "list_all (\<lambda>c. pc_index c < WORD_LENGTH) (fst (pcs, lcs))"
    by (simp add: generatePositionConstraints_valid)
  moreover have "run_batches [(pcs, lcs)] (constraints g) (words g) = Inr (constraints g1, words g1)"
    using a(2,3) by simp
  ultimately show ?thesis by blast
qed

section \<open>Properties of the choice of a guess\<close>

lemma count_word_eq: "count_word w f = (\<lambda>c. f c + count_list w c)"
  by (induction w arbitrary: f) (auto simp: fun_eq_iff)

lemma count_pool_eq: "count_pool pool f = (\<lambda>c. f c + occurrences pool c)"
  by (induction pool arbitrary: f) (auto simp: fun_eq_iff count_word_eq occurrences_def)

lemma score_word_eq:
  "score_word f cs score seen = score + sum f (set cs - set seen)"
proof (induction cs arbitrary: score seen)
  case Nil
  then show ?case by simp
next
  case (Cons c cs)
  show ?case
  proof (cases "c \<in> set seen")
    case True
    then have "set (c # cs) - set seen = set cs - set seen" by auto
    with True Cons.IH [of score "uset_insert c seen"] show ?thesis
      by (simp add: set_uset_insert insert_absorb)
  next
    case False
    have "set (c # cs) - set seen = insert c (set cs - insert c (set seen))"
      using False by auto
    moreover have "c \<notin> set cs - insert c (set seen)" by simp
    ultimately have "sum f (set (c # cs) - set seen) = f c + sum f (set cs - insert c (set seen))"
      by (simp del: set_simps)
    with False Cons.IH [of "score + f c" "uset_insert c seen"] show ?thesis
      by (simp add: set_uset_insert)
  qed
qed

lemma score_word_occurrence_score:
  "score_word (count_pool pool (\<lambda>c. 0)) word 0 [] = occurrence_score pool word"
  by (simp add: score_word_eq count_pool_eq occurrence_score_def)

lemma best_loop_inv:
  assumes "best_loop f ws bo bs = (bo1, bs1)"
    and "set bo = {w \<in> D. score_word f w 0 [] = bs}"
    and "\<forall>w \<in> D. score_word f w 0 [] \<le> bs"
    and "distinct bo"
    and "bs = 0 \<or> (\<exists>w \<in> D. score_word f w 0 [] = bs)"
  shows "set bo1 = {w \<in> D \<union> set ws. score_word f w 0 [] = bs1}
         \<and> (\<forall>w \<in> D \<union> set ws. score_word f w 0 [] \<le> bs1)
         \<and> distinct bo1
         \<and> (bs1 = 0 \<or> (\<exists>w \<in> D \<union> set ws. score_word f w 0 [] = bs1))"
  using assms
proof (induction ws arbitrary: bo bs D)
  case Nil
  then show ?case by simp
next
  case (Cons word rest)
  let ?s = "score_word f word 0 []"
  consider (gt) "?s > bs" | (eq) "?s = bs" | (lt) "?s < bs" by linarith
  then show ?case
  proof cases
    case gt
    with Cons.prems(1) have l: "best_loop f rest (uset_insert word []) ?s = (bo1, bs1)"
      by (simp add: Let_def)
    have a: "set (uset_insert word []) = {w \<in> insert word D. score_word f w 0 [] = ?s}"
      using gt Cons.prems(3) by (auto simp: set_uset_insert)
    have b: "\<forall>w \<in> insert word D. score_word f w 0 [] \<le> ?s"
      using gt Cons.prems(3) by auto
    have c: "distinct (uset_insert word [])" by (simp add: uset_insert_def)
    have d: "?s = 0 \<or> (\<exists>w \<in> insert word D. score_word f w 0 [] = ?s)" by simp
    from Cons.IH [OF l a b c d] show ?thesis by simp
  next
    case eq
    with Cons.prems(1) have l: "best_loop f rest (uset_insert word bo) bs = (bo1, bs1)"
      by (simp add: Let_def)
    have a: "set (uset_insert word bo) = {w \<in> insert word D. score_word f w 0 [] = bs}"
      using eq Cons.prems(2) by (auto simp: set_uset_insert)
    have b: "\<forall>w \<in> insert word D. score_word f w 0 [] \<le> bs"
      using eq Cons.prems(3) by auto
    have c: "distinct (uset_insert word bo)"
      using Cons.prems(4) by (rule distinct_uset_insert)
    have d: "bs = 0 \<or> (\<exists>w \<in> insert word D. score_word f w 0 [] = bs)"
      using eq by simp
    from Cons.IH [OF l a b c d] show ?thesis by simp
  next
    case lt
    with Cons.prems(1) have l: "best_loop f rest bo bs = (bo1, bs1)"
      by (simp add: Let_def)
    have a: "set bo = {w \<in> insert word D. score_word f w 0 [] = bs}"
      using lt Cons.prems(2) by auto
    have b: "\<forall>w \<in> insert word D. score_word f w 0 [] \<le> bs"
      using lt Cons.prems(3) by auto
    have d: "bs = 0 \<or> (\<exists>w \<in> insert word D. score_word f w 0 [] = bs)"
      using lt Cons.prems(5) by auto
    from Cons.IH [OF l a b Cons.prems(4) d] show ?thesis by simp
  qed
qed

lemma best_loop_argmax:
  assumes "best_loop f pool [] 0 = (bo, bs)"
  shows "distinct bo \<and> set bo = {w \<in> set pool. \<forall>v \<in> set pool. score_word f v 0 [] \<le> score_word f w 0 []}"
proof -
  have "set [] = {w \<in> {}. score_word f w 0 [] = 0}" by simp
  from best_loop_inv [OF assms this] have
    i: "set bo = {w \<in> set pool. score_word f w 0 [] = bs}"
       "\<forall>w \<in> set pool. score_word f w 0 [] \<le> bs"
       "distinct bo"
       "bs = 0 \<or> (\<exists>w \<in> set pool. score_word f w 0 [] = bs)"
    by simp_all
  have "{w \<in> set pool. score_word f w 0 [] = bs}
          = {w \<in> set pool. \<forall>v \<in> set pool. score_word f v 0 [] \<le> score_word f w 0 []}"
    using i(2,4) by (auto simp: le_antisym)
  with i(1,3) show ?thesis by simp
qed

lemma bestWord_options:
  "\<exists>bo. distinct bo
      \<and> set bo = {w \<in> set pool. \<forall>v \<in> set pool. occurrence_score pool v \<le> occurrence_score pool w}
      \<and> (\<forall>r. bestWord visit r pool =
               (if length (visit bo) = 0 then Inl UndefinedBehaviour
                else Inr (visit bo ! (r mod length (visit bo)))))"
proof -
  obtain bo bs where l: "best_loop (count_pool pool (\<lambda>c. 0)) pool [] 0 = (bo, bs)"
    by (cases "best_loop (count_pool pool (\<lambda>c. 0)) pool [] 0")
  from best_loop_argmax [OF l] have "distinct bo"
    "set bo = {w \<in> set pool. \<forall>v \<in> set pool. occurrence_score pool v \<le> occurrence_score pool w}"
    by (simp_all add: score_word_occurrence_score)
  moreover have "\<forall>r. bestWord visit r pool =
               (if length (visit bo) = 0 then Inl UndefinedBehaviour
                else Inr (visit bo ! (r mod length (visit bo))))"
    using l by (simp add: bestWord_def Let_def)
  ultimately show ?thesis by blast
qed



lemma bestWord_returns:
  assumes "iteration_order visit" and "pool \<noteq> []"
  shows "\<exists>w. bestWord visit r pool = Inr w \<and> w \<in> set pool
             \<and> (\<forall>v \<in> set pool. occurrence_score pool v \<le> occurrence_score pool w)"
proof -
  from bestWord_options [of pool visit] obtain bo where
    b: "distinct bo"
       "set bo = {w \<in> set pool. \<forall>v \<in> set pool. occurrence_score pool v \<le> occurrence_score pool w}"
       "\<And>r. bestWord visit r pool =
               (if length (visit bo) = 0 then Inl UndefinedBehaviour
                else Inr (visit bo ! (r mod length (visit bo))))"
    by blast
  from assms(1) have v: "set (visit bo) = set bo" "length (visit bo) = length bo"
    by (simp_all add: iteration_order_def)
  have "finite (occurrence_score pool ` set pool)" "occurrence_score pool ` set pool \<noteq> {}"
    using assms(2) by simp_all
  then have "Max (occurrence_score pool ` set pool) \<in> occurrence_score pool ` set pool"
    by (rule Max_in)
  then obtain m where m: "m \<in> set pool"
    "occurrence_score pool m = Max (occurrence_score pool ` set pool)"
    by auto
  have "\<forall>v \<in> set pool. occurrence_score pool v \<le> occurrence_score pool m"
    unfolding m(2) by simp
  with m(1) b(2) have "m \<in> set bo" by simp
  then have ne: "length (visit bo) \<noteq> 0" using v(2) by auto
  then have "visit bo ! (r mod length (visit bo)) \<in> set (visit bo)" by simp
  with v(1) b(2) ne b(3) [of r] show ?thesis by auto
qed

text \<open>
  Claim C2, as \<^const>\<open>bestWord\<close> scores. For every pool that is not empty, whatever
  \<^verbatim>\<open>rand ()\<close> returns and in whatever order the best options are visited, \<^const>\<open>bestWord\<close>
  returns a word of the pool with the maximum score, where the frequency of a letter is
  the number of its occurrences in the words of the pool (a letter twice in a word counts
  twice) and the score of a word is the sum of these frequencies over the distinct
  letters of the word (a repeated letter adds its frequency once).
\<close>

theorem bestWord_maximal:
  assumes "iteration_order visit" and "pool \<noteq> []"
  shows "\<exists>w. bestWord visit r pool = Inr w \<and> w \<in> set pool
             \<and> (\<forall>v \<in> set pool. occurrence_score pool v \<le> occurrence_score pool w)"
  using assms by (rule bestWord_returns)


text \<open>
  Claim C3, as the program handles the empty pool. \<^const>\<open>bestWord\<close> needs a pool that is
  not empty: on such a pool it returns a word of the pool; on the empty pool it signals
  no error, the remainder by the size of the empty set of options is undefined. The loop
  of \<^verbatim>\<open>main\<close> tests the pool before every call: when the pool is empty the round ends the
  game with the message that the word is not in the dictionary, and \<^const>\<open>bestWord\<close> is
  not called.
\<close>

theorem bestWord_empty_pool:
  assumes "iteration_order visit"
  shows "bestWord visit r [] = Inl UndefinedBehaviour
         \<and> (pool \<noteq> [] \<longrightarrow> (\<exists>w. bestWord visit r pool = Inr w \<and> w \<in> set pool))
         \<and> (words g = [] \<longrightarrow> main_round visit r current_feedback g = Inr NotInDictionary)"
proof -
  from assms have "length (visit []) = 0" by (simp add: iteration_order_def)
  then have "bestWord visit r [] = Inl UndefinedBehaviour"
    by (simp add: bestWord_def)
  moreover have "pool \<noteq> [] \<longrightarrow> (\<exists>w. bestWord visit r pool = Inr w \<and> w \<in> set pool)"
    using bestWord_returns [OF assms] by blast
  moreover have "words g = [] \<longrightarrow> main_round visit r current_feedback g = Inr NotInDictionary"
    by (simp add: main_round_def)
  ultimately show ?thesis by blast
qed


text \<open>The pool of EERIE, TEPEE and SOLAR: EERIE has the maximum score.\<close>

theorem bestWord_maximal_witness:
  "iteration_order id
   \<and> bestWord id 0 [''EERIE'', ''TEPEE'', ''SOLAR''] = Inr ''EERIE''
   \<and> occurrence_score [''EERIE'', ''TEPEE'', ''SOLAR''] ''TEPEE''
        \<le> occurrence_score [''EERIE'', ''TEPEE'', ''SOLAR''] ''EERIE''
   \<and> occurrence_score [''EERIE'', ''TEPEE'', ''SOLAR''] ''SOLAR''
        \<le> occurrence_score [''EERIE'', ''TEPEE'', ''SOLAR''] ''EERIE''"
proof -
  have h: "iteration_order id" by (simp add: iteration_order_def)
  have e: "bestWord id 0 [''EERIE'', ''TEPEE'', ''SOLAR''] = Inr ''EERIE''"
    by code_simp
  from bestWord_maximal [OF h, of "[''EERIE'', ''TEPEE'', ''SOLAR'']" 0] show ?thesis
    using h e by auto
qed

text \<open>
  On the same pool the frequencies of the claim as stated, which count the words that
  hold a letter, give E the frequency 2 and not 6: SOLAR has the score 6 and is the one
  word with the maximum, EERIE has 5. \<^const>\<open>bestWord\<close> returns EERIE, whose score by
  occurrences is 9, above the 8 of TEPEE and the 6 of SOLAR.
\<close>

theorem bestWord_spec_score_differs:
  "bestWord id 0 [''EERIE'', ''TEPEE'', ''SOLAR''] = Inr ''EERIE''
   \<and> spec_score [''EERIE'', ''TEPEE'', ''SOLAR''] ''EERIE'' = 5
   \<and> spec_score [''EERIE'', ''TEPEE'', ''SOLAR''] ''SOLAR'' = 6
   \<and> occurrence_score [''EERIE'', ''TEPEE'', ''SOLAR''] ''EERIE'' = 9
   \<and> occurrence_score [''EERIE'', ''TEPEE'', ''SOLAR''] ''TEPEE'' = 8
   \<and> occurrence_score [''EERIE'', ''TEPEE'', ''SOLAR''] ''SOLAR'' = 6"
  by code_simp


text \<open>The empty pool, the pool of CRANE alone, and a round that starts with the empty pool.\<close>

theorem bestWord_empty_pool_witness:
  "iteration_order id
   \<and> bestWord id 0 [] = Inl UndefinedBehaviour
   \<and> (\<exists>w. bestWord id 0 [''CRANE''] = Inr w \<and> w \<in> set [''CRANE''])
   \<and> main_round id 0 ''GWWWW'' \<lparr>words = [], constraints = no_constraints, numGuesses = 3\<rparr>
        = Inr NotInDictionary"
proof -
  have h: "iteration_order id" by (simp add: iteration_order_def)
  from bestWord_empty_pool [OF h, of 0 "[''CRANE'']"
      "\<lparr>words = [], constraints = no_constraints, numGuesses = 3\<rparr>" "''GWWWW''"]
  show ?thesis using h by simp
qed

text \<open>
  The claim as stated asks for an error that says the pool is empty. The call on the
  empty pool reaches the remainder by zero.
\<close>

theorem bestWord_no_word_no_error:
  "bestWord id 0 [] = Inl UndefinedBehaviour"
  by code_simp





end
